theory Spec2Isabelle
  imports Main "HOL-Library.Word"
begin

section \<open>Python values, errors and the byte stream underneath\<close>

text \<open>
  The module \<^verbatim>\<open>eth/vm/code_stream.py\<close> defines one class, \<^verbatim>\<open>CodeStream\<close>: a
  cursor over immutable bytecode (held by an \<^verbatim>\<open>io.BytesIO\<close>) together with a memoised
  classifier telling opcode bytes from the data bytes of a push instruction.

  A method of the class becomes a function from the object's state to a result and the
  state after the call. An exception is a value: the result is \<open>Inl\<close> of the error, and
  the state is the one the object had when the exception left the method.
\<close>

type_synonym byte = "8 word"

datatype py_error = ValueError | IndexError | TypeError | OverflowError

type_synonym 'a result = "py_error + 'a"

text \<open>
  Indexing a \<^verbatim>\<open>bytes\<close> object with an integer: a negative index counts from the
  end, an index out of range raises \<^verbatim>\<open>IndexError\<close>, and the element is an integer
  in \<open>0..255\<close>.
\<close>

definition bytes_getitem :: "byte list \<Rightarrow> int \<Rightarrow> int result" where
  "bytes_getitem bs i =
     (let n = int (length bs); j = (if i < 0 then n + i else i)
      in if 0 \<le> j \<and> j < n then Inr (uint (bs ! nat j)) else Inl IndexError)"

text \<open>
  The part of \<^verbatim>\<open>io.BytesIO\<close> the class uses: a buffer and a position. Both
  \<^verbatim>\<open>read\<close> and \<^verbatim>\<open>seek\<close> first convert their argument to a machine integer
  (\<^verbatim>\<open>Py_ssize_t\<close>, 64 bits) and raise \<^verbatim>\<open>OverflowError\<close>, with the stream as it was,
  when it does not fit.

  \<^verbatim>\<open>read(size)\<close> returns at most \<open>size\<close> bytes from the position on (all of them when
  \<open>size\<close> is negative, none when the position is at or past the end) and advances by what
  it returned. \<^verbatim>\<open>seek(p)\<close> raises \<^verbatim>\<open>ValueError\<close> on a negative \<open>p\<close> that fits and
  otherwise sets the position, also past the end; the class calls it with
  \<open>min value length\<close> only, which is never above the length of the code and so never
  above the largest machine integer. \<^verbatim>\<open>tell()\<close> returns the position.
\<close>

definition SSIZE_MIN :: int where "SSIZE_MIN = - (2 ^ 63)"
definition SSIZE_MAX :: int where "SSIZE_MAX = 2 ^ 63 - 1"

record bytes_io =
  buf :: "byte list"
  pos :: int

definition bytes_io_new :: "byte list \<Rightarrow> bytes_io" where
  "bytes_io_new initial_bytes = \<lparr>buf = initial_bytes, pos = 0\<rparr>"

definition bytes_io_read :: "bytes_io \<Rightarrow> int \<Rightarrow> byte list result \<times> bytes_io" where
  "bytes_io_read b sz =
     (if sz < SSIZE_MIN \<or> SSIZE_MAX < sz then (Inl OverflowError, b)
      else
        let n = int (length (buf b)) - pos b;
            k = (if sz < 0 \<or> n < sz then (if n < 0 then 0 else n) else sz)
        in (Inr (take (nat k) (drop (nat (pos b)) (buf b))), b\<lparr>pos := pos b + k\<rparr>))"

definition bytes_io_tell :: "bytes_io \<Rightarrow> int" where
  "bytes_io_tell b = pos b"

definition bytes_io_seek :: "bytes_io \<Rightarrow> int \<Rightarrow> int result \<times> bytes_io" where
  "bytes_io_seek b p =
     (if p < SSIZE_MIN then (Inl OverflowError, b)
      else if p < 0 then (Inl ValueError, b)
      else (Inr p, b\<lparr>pos := p\<rparr>))"

section \<open>Opcode values\<close>

text \<open>
  Modelled from the spec: the table \<^verbatim>\<open>eth.vm.opcode_values\<close> is imported by the module
  and is not part of it. The push family is the contiguous range from \<open>PUSH1\<close> (one byte
  of data) to \<open>PUSH32\<close> (thirty-two bytes), and \<open>STOP\<close> is the terminator; the numbers
  are those of the instruction set.
\<close>

definition STOP :: int where "STOP = 0"
definition PUSH1 :: int where "PUSH1 = 96"
definition PUSH2 :: int where "PUSH2 = 97"
definition PUSH32 :: int where "PUSH32 = 127"

section \<open>The class CodeStream\<close>

record code_stream =
  stream :: bytes_io
  length_cache :: int
  raw_code_bytes :: "byte list"
  invalid_positions :: "int set"
  valid_positions :: "int set"

text \<open>
  \<^verbatim>\<open>__init__\<close>. The check \<^verbatim>\<open>validate_is_bytes\<close> rejects what is not a \<^verbatim>\<open>bytes\<close>
  object; the argument's type says it is one.
\<close>

definition init :: "byte list \<Rightarrow> code_stream" where
  "init code_bytes =
     \<lparr>stream = bytes_io_new code_bytes,
      length_cache = int (length code_bytes),
      raw_code_bytes = code_bytes,
      invalid_positions = {},
      valid_positions = {}\<rparr>"

definition read :: "code_stream \<Rightarrow> int \<Rightarrow> byte list result \<times> code_stream" where
  "read s sz = (case bytes_io_read (stream s) sz of (r, b) \<Rightarrow> (r, s\<lparr>stream := b\<rparr>))"

definition len :: "code_stream \<Rightarrow> int" where
  "len s = length_cache s"

definition getitem :: "code_stream \<Rightarrow> int \<Rightarrow> int result" where
  "getitem s i = bytes_getitem (raw_code_bytes s) i"

text \<open>
  \<^verbatim>\<open>_next\<close> (and \<^verbatim>\<open>__next__\<close>, which only calls it): one byte is read; an empty
  result is falsy and gives \<open>STOP\<close>; \<^verbatim>\<open>ord\<close> takes a single byte and raises
  \<^verbatim>\<open>TypeError\<close> on a longer argument.
\<close>

definition cs_next :: "code_stream \<Rightarrow> int result \<times> code_stream" where
  "cs_next s =
     (case read s 1 of
        (Inl e, s') \<Rightarrow> (Inl e, s')
      | (Inr next_opcode_as_byte, s') \<Rightarrow>
          (case next_opcode_as_byte of
             [] \<Rightarrow> (Inr STOP, s')
           | [b] \<Rightarrow> (Inr (uint b), s')
           | _ \<Rightarrow> (Inl TypeError, s')))"

text \<open>The property \<^verbatim>\<open>pc\<close>: its getter and its setter.\<close>

definition pc :: "code_stream \<Rightarrow> int" where
  "pc s = bytes_io_tell (stream s)"

definition pc_setter :: "code_stream \<Rightarrow> int \<Rightarrow> unit result \<times> code_stream" where
  "pc_setter s v =
     (case bytes_io_seek (stream s) (min v (len s)) of
        (Inl e, b) \<Rightarrow> (Inl e, s\<lparr>stream := b\<rparr>)
      | (Inr _, b) \<Rightarrow> (Inr (), s\<lparr>stream := b\<rparr>))"

definition peek :: "code_stream \<Rightarrow> int result \<times> code_stream" where
  "peek s =
     (let current_pc = pc s in
      case cs_next s of
        (Inl e, s') \<Rightarrow> (Inl e, s')
      | (Inr next_opcode, s') \<Rightarrow>
          (case pc_setter s' current_pc of
             (Inl e, s'') \<Rightarrow> (Inl e, s'')
           | (Inr _, s'') \<Rightarrow> (Inr next_opcode, s'')))"

text \<open>
  The context manager \<^verbatim>\<open>seek\<close>. The position is read and set before the
  \<^verbatim>\<open>try\<close>, so an exception of the first assignment leaves without running the
  body or the \<^verbatim>\<open>finally\<close> clause. The body is the code under the \<^verbatim>\<open>with\<close>
  statement: any function of the state, returning a value or raising. The
  \<^verbatim>\<open>finally\<close> clause runs on both exits; an exception of its own would replace the
  body's outcome.
\<close>

definition seek ::
  "int \<Rightarrow> (code_stream \<Rightarrow> 'a result \<times> code_stream) \<Rightarrow> code_stream \<Rightarrow> 'a result \<times> code_stream"
where
  "seek target body s =
     (let anchor_pc = pc s in
      case pc_setter s target of
        (Inl e, s1) \<Rightarrow> (Inl e, s1)
      | (Inr _, s1) \<Rightarrow>
          (case body s1 of (r, s2) \<Rightarrow>
             (case pc_setter s2 anchor_pc of
                (Inl e, s3) \<Rightarrow> (Inl e, s3)
              | (Inr _, s3) \<Rightarrow> (r, s3))))"

text \<open>
  The generator \<^verbatim>\<open>_potentially_disqualifying_opcode_positions\<close>. Its loop variable
  \<open>bytes_back\<close> starts at \<open>min 32 position\<close> and counts down to \<open>1\<close>. The function below
  resumes the generator at a value of \<open>bytes_back\<close>: it runs the loop to the next
  \<^verbatim>\<open>yield\<close> and returns the position yielded with the value of \<open>bytes_back\<close> to resume
  from, or \<open>None\<close> when the range is exhausted, or the error of the indexing.
\<close>

function potentially_disqualifying_opcode_positions ::
  "code_stream \<Rightarrow> int \<Rightarrow> int \<Rightarrow> (int \<times> int) option result"
where
  "potentially_disqualifying_opcode_positions s position bytes_back =
     (if bytes_back \<le> 0 then Inr None
      else
        let earlier_position = position - bytes_back in
        case bytes_getitem (raw_code_bytes s) earlier_position of
          Inl e \<Rightarrow> Inl e
        | Inr opcode \<Rightarrow>
            if PUSH1 + (bytes_back - 1) \<le> opcode \<and> opcode \<le> PUSH32
            then Inr (Some (earlier_position, bytes_back - 1))
            else potentially_disqualifying_opcode_positions s position (bytes_back - 1))"
  by pat_completeness auto
termination
  by (relation "measure (\<lambda>(s, position, bytes_back). nat bytes_back)") auto

declare potentially_disqualifying_opcode_positions.simps [simp del]

lemma disqualifier_earlier:
  "potentially_disqualifying_opcode_positions s position bytes_back = Inr (Some (d, b'))
   \<Longrightarrow> 0 \<le> b' \<and> b' < bytes_back \<and> d = position - (b' + 1)"
proof (induction s position bytes_back rule: potentially_disqualifying_opcode_positions.induct)
  case (1 s position bytes_back)
  show ?case
  proof (cases "bytes_back \<le> 0")
    case True
    with "1.prems" show ?thesis
      by (simp add: potentially_disqualifying_opcode_positions.simps)
  next
    case False
    show ?thesis
    proof (cases "bytes_getitem (raw_code_bytes s) (position - bytes_back)")
      case (Inl e)
      with False "1.prems" show ?thesis
        by (simp add: potentially_disqualifying_opcode_positions.simps)
    next
      case (Inr opcode)
      show ?thesis
      proof (cases "PUSH1 + (bytes_back - 1) \<le> opcode \<and> opcode \<le> PUSH32")
        case True
        with False Inr "1.prems" show ?thesis
          by (auto simp add: potentially_disqualifying_opcode_positions.simps)
      next
        case no: False
        with False Inr "1.prems"
        have "potentially_disqualifying_opcode_positions s position (bytes_back - 1)
                = Inr (Some (d, b'))"
          by (auto simp add: potentially_disqualifying_opcode_positions.simps)
        with "1.IH" [OF False refl Inr no] show ?thesis
          by simp
      qed
    qed
  qed
qed

text \<open>
  \<^verbatim>\<open>is_valid_opcode\<close>, with the \<^verbatim>\<open>for\<close> loop over the generator as the second
  function: \<open>for_disqualifier s position bytes_back\<close> is the loop from the point where
  the generator is resumed at \<open>bytes_back\<close>.

  The interpreter's limit on the depth of the call stack is not part of these
  functions: they give the result of the recursion run to its end, where the
  interpreter raises \<^verbatim>\<open>RecursionError\<close> once the recursion is deeper than its limit.
  The depth a call needs is \<open>is_valid_opcode_depth\<close> below.
\<close>

function is_valid_opcode :: "code_stream \<Rightarrow> int \<Rightarrow> bool result \<times> code_stream"
  and for_disqualifier :: "code_stream \<Rightarrow> int \<Rightarrow> int \<Rightarrow> bool result \<times> code_stream"
where
  "is_valid_opcode s position =
     (if position \<ge> length_cache s then (Inr False, s)
      else if position \<in> invalid_positions s then (Inr False, s)
      else if position \<in> valid_positions s then (Inr True, s)
      else for_disqualifier s position (min 32 position))"
| "for_disqualifier s position bytes_back =
     (case potentially_disqualifying_opcode_positions s position bytes_back of
        Inl e \<Rightarrow> (Inl e, s)
      | Inr None \<Rightarrow>
          (Inr True, s\<lparr>valid_positions := insert position (valid_positions s)\<rparr>)
      | Inr (Some (disqualifier, bytes_back')) \<Rightarrow>
          (case is_valid_opcode s disqualifier of
             (Inl e, s') \<Rightarrow> (Inl e, s')
           | (Inr True, s') \<Rightarrow>
               (Inr False, s'\<lparr>invalid_positions := insert position (invalid_positions s')\<rparr>)
           | (Inr False, s') \<Rightarrow> for_disqualifier s' position bytes_back'))"
  by pat_completeness auto
termination
  apply (relation "measure (\<lambda>x. case x of
          Inl (s, p) \<Rightarrow> (if p < 0 then 1 else 34 * nat p + 35)
        | Inr (s, p, b) \<Rightarrow> (if b \<le> 0 then 0 else 34 * nat p + nat b + 1))")
     apply simp
    apply auto[1]
   apply (auto dest!: disqualifier_earlier)
  done

declare is_valid_opcode.simps [simp del] for_disqualifier.simps [simp del]


text \<open>
  The depth of the recursion of \<^verbatim>\<open>is_valid_opcode\<close>: the largest number of activations
  of the method on the call stack at one time during the call, the call itself counted.
  The two functions follow the recursion of \<open>is_valid_opcode\<close> and \<open>for_disqualifier\<close>
  call by call.
\<close>

function is_valid_opcode_depth :: "code_stream \<Rightarrow> int \<Rightarrow> nat"
  and for_disqualifier_depth :: "code_stream \<Rightarrow> int \<Rightarrow> int \<Rightarrow> nat"
where
  "is_valid_opcode_depth s position =
     (if position \<ge> length_cache s then 1
      else if position \<in> invalid_positions s then 1
      else if position \<in> valid_positions s then 1
      else 1 + for_disqualifier_depth s position (min 32 position))"
| "for_disqualifier_depth s position bytes_back =
     (case potentially_disqualifying_opcode_positions s position bytes_back of
        Inl e \<Rightarrow> 0
      | Inr None \<Rightarrow> 0
      | Inr (Some (disqualifier, bytes_back')) \<Rightarrow>
          max (is_valid_opcode_depth s disqualifier)
            (case is_valid_opcode s disqualifier of
               (Inl e, s') \<Rightarrow> 0
             | (Inr True, s') \<Rightarrow> 0
             | (Inr False, s') \<Rightarrow> for_disqualifier_depth s' position bytes_back'))"
  by pat_completeness auto
termination
  apply (relation "measure (\<lambda>x. case x of
          Inl (s, p) \<Rightarrow> (if p < 0 then 1 else 34 * nat p + 35)
        | Inr (s, p, b) \<Rightarrow> (if b \<le> 0 then 0 else 34 * nat p + nat b + 1))")
     apply simp
    apply auto[1]
   apply (auto dest!: disqualifier_earlier)
  done

declare is_valid_opcode_depth.simps [simp del] for_disqualifier_depth.simps [simp del]

section \<open>Callers\<close>

text \<open>
  What a caller can do with a \<^verbatim>\<open>CodeStream\<close>: call its methods one after the other,
  run a block under \<^verbatim>\<open>with stream.seek(target)\<close>, and catch the exception a block
  raises. \<open>exec_body\<close> runs a block: the first exception ends it.
\<close>

datatype py_value = NoneV | IntV int | BoolV bool | BytesV "byte list"

datatype op =
    Read int
  | Len
  | Next
  | GetItem int
  | Peek
  | GetPc
  | SetPc int
  | IsValidOpcode int
  | Seek int "op list"
  | Catch "op list"

fun exec :: "op \<Rightarrow> code_stream \<Rightarrow> py_value result \<times> code_stream"
  and exec_body :: "op list \<Rightarrow> code_stream \<Rightarrow> py_value result \<times> code_stream"
where
  "exec (Read n) s = (case read s n of (r, s') \<Rightarrow> (map_sum id BytesV r, s'))"
| "exec Len s = (Inr (IntV (len s)), s)"
| "exec Next s = (case cs_next s of (r, s') \<Rightarrow> (map_sum id IntV r, s'))"
| "exec (GetItem i) s = (map_sum id IntV (getitem s i), s)"
| "exec Peek s = (case peek s of (r, s') \<Rightarrow> (map_sum id IntV r, s'))"
| "exec GetPc s = (Inr (IntV (pc s)), s)"
| "exec (SetPc v) s = (case pc_setter s v of (r, s') \<Rightarrow> (map_sum id (\<lambda>_. NoneV) r, s'))"
| "exec (IsValidOpcode p) s =
     (case is_valid_opcode s p of (r, s') \<Rightarrow> (map_sum id BoolV r, s'))"
| "exec (Seek target body) s = seek target (\<lambda>s'. exec_body body s') s"
| "exec (Catch body) s = (case exec_body body s of (r, s') \<Rightarrow> (Inr NoneV, s'))"
| "exec_body [] s = (Inr NoneV, s)"
| "exec_body (x # xs) s =
     (case exec x s of
        (Inl e, s') \<Rightarrow> (Inl e, s')
      | (Inr v, s') \<Rightarrow> exec_body xs s')"

text \<open>
  \<open>calls n m\<close> is \<open>n\<close> calls of the method \<open>m\<close> in a row, with the results in the order
  of the calls.
\<close>

fun calls :: "nat \<Rightarrow> (code_stream \<Rightarrow> 'a \<times> code_stream) \<Rightarrow> code_stream \<Rightarrow> 'a list \<times> code_stream"
where
  "calls 0 m s = ([], s)"
| "calls (Suc n) m s =
     (case m s of (r, s') \<Rightarrow> case calls n m s' of (rs, s'') \<Rightarrow> (r # rs, s''))"

section \<open>Invariants\<close>

text \<open>
  The state of a stream made by \<open>init\<close> and used through its methods: the stream's
  buffer is the code, the cached length is its length, the position is within the
  code or at its end, and no position is memoised both ways.
\<close>

definition cs_inv :: "code_stream \<Rightarrow> bool" where
  "cs_inv s \<longleftrightarrow>
     buf (stream s) = raw_code_bytes s \<and>
     length_cache s = int (length (raw_code_bytes s)) \<and>
     0 \<le> pos (stream s) \<and> pos (stream s) \<le> length_cache s \<and>
     valid_positions s \<inter> invalid_positions s = {}"

text \<open>
  \<open>memo_extends s s' p\<close> relates the state before a classification of position \<open>p\<close> to
  the state after it: the stream, the cached length and the code are the same; each memo
  set has kept its members; a position above \<open>p\<close> is in a set after the call only if it
  was before; and a position in both sets after the call was in both before.
\<close>

definition memo_extends :: "code_stream \<Rightarrow> code_stream \<Rightarrow> int \<Rightarrow> bool" where
  "memo_extends s s' p \<longleftrightarrow>
     stream s' = stream s \<and> length_cache s' = length_cache s \<and>
     raw_code_bytes s' = raw_code_bytes s \<and>
     (\<forall>q. (q \<in> valid_positions s \<longrightarrow> q \<in> valid_positions s') \<and>
          (q \<in> invalid_positions s \<longrightarrow> q \<in> invalid_positions s') \<and>
          (p < q \<longrightarrow> q \<in> valid_positions s' \<longrightarrow> q \<in> valid_positions s) \<and>
          (p < q \<longrightarrow> q \<in> invalid_positions s' \<longrightarrow> q \<in> invalid_positions s) \<and>
          (q \<in> valid_positions s' \<longrightarrow> q \<in> invalid_positions s' \<longrightarrow>
             q \<in> valid_positions s \<and> q \<in> invalid_positions s))"

text \<open>
  \<open>evolves s s'\<close> relates a state to a later one: the code, the stream's buffer and the
  cached length are the same, and each memo set has kept its members.
\<close>

definition evolves :: "code_stream \<Rightarrow> code_stream \<Rightarrow> bool" where
  "evolves s s' \<longleftrightarrow>
     buf (stream s') = buf (stream s) \<and> length_cache s' = length_cache s \<and>
     raw_code_bytes s' = raw_code_bytes s \<and>
     valid_positions s \<subseteq> valid_positions s' \<and>
     invalid_positions s \<subseteq> invalid_positions s'"

section \<open>The memo of the classifier\<close>

lemma memo_extendsD:
  assumes "memo_extends s s' p"
  shows "stream s' = stream s" and "length_cache s' = length_cache s"
    and "raw_code_bytes s' = raw_code_bytes s"
    and "q \<in> valid_positions s \<Longrightarrow> q \<in> valid_positions s'"
    and "q \<in> invalid_positions s \<Longrightarrow> q \<in> invalid_positions s'"
    and "p < q \<Longrightarrow> q \<in> valid_positions s' \<Longrightarrow> q \<in> valid_positions s"
    and "p < q \<Longrightarrow> q \<in> invalid_positions s' \<Longrightarrow> q \<in> invalid_positions s"
    and "q \<in> valid_positions s' \<Longrightarrow> q \<in> invalid_positions s'
          \<Longrightarrow> q \<in> valid_positions s \<and> q \<in> invalid_positions s"
  using assms unfolding memo_extends_def by blast+

lemma memo_extendsI:
  assumes "stream s' = stream s" and "length_cache s' = length_cache s"
    and "raw_code_bytes s' = raw_code_bytes s"
    and "\<And>q. q \<in> valid_positions s \<Longrightarrow> q \<in> valid_positions s'"
    and "\<And>q. q \<in> invalid_positions s \<Longrightarrow> q \<in> invalid_positions s'"
    and "\<And>q. p < q \<Longrightarrow> q \<in> valid_positions s' \<Longrightarrow> q \<in> valid_positions s"
    and "\<And>q. p < q \<Longrightarrow> q \<in> invalid_positions s' \<Longrightarrow> q \<in> invalid_positions s"
    and "\<And>q. q \<in> valid_positions s' \<Longrightarrow> q \<in> invalid_positions s'
          \<Longrightarrow> q \<in> valid_positions s \<and> q \<in> invalid_positions s"
  shows "memo_extends s s' p"
  unfolding memo_extends_def using assms by blast

lemma memo_extends_refl: "memo_extends s s p"
  by (rule memo_extendsI) simp_all

lemma memo_extends_trans:
  assumes a: "memo_extends s s' d" and b: "memo_extends s' s'' p" and le: "d \<le> p"
  shows "memo_extends s s'' p"
proof (rule memo_extendsI)
  show "stream s'' = stream s"
    using memo_extendsD(1) [OF a] memo_extendsD(1) [OF b] by simp
  show "length_cache s'' = length_cache s"
    using memo_extendsD(2) [OF a] memo_extendsD(2) [OF b] by simp
  show "raw_code_bytes s'' = raw_code_bytes s"
    using memo_extendsD(3) [OF a] memo_extendsD(3) [OF b] by simp
  show "q \<in> valid_positions s''" if "q \<in> valid_positions s" for q
    using that memo_extendsD(4) [OF a] memo_extendsD(4) [OF b] by blast
  show "q \<in> invalid_positions s''" if "q \<in> invalid_positions s" for q
    using that memo_extendsD(5) [OF a] memo_extendsD(5) [OF b] by blast
  show "q \<in> valid_positions s" if "p < q" "q \<in> valid_positions s''" for q
  proof -
    from that le have "d < q" by simp
    with that memo_extendsD(6) [OF a] memo_extendsD(6) [OF b] show ?thesis by blast
  qed
  show "q \<in> invalid_positions s" if "p < q" "q \<in> invalid_positions s''" for q
  proof -
    from that le have "d < q" by simp
    with that memo_extendsD(7) [OF a] memo_extendsD(7) [OF b] show ?thesis by blast
  qed
  show "q \<in> valid_positions s \<and> q \<in> invalid_positions s"
    if "q \<in> valid_positions s''" "q \<in> invalid_positions s''" for q
    using that memo_extendsD(8) [OF a] memo_extendsD(8) [OF b] by blast
qed

lemma memo_extends_fresh:
  assumes a: "memo_extends s s' d" and lt: "d < p"
    and "p \<notin> valid_positions s" and "p \<notin> invalid_positions s"
  shows "p \<notin> valid_positions s'" and "p \<notin> invalid_positions s'"
  using assms(3,4) memo_extendsD(6) [OF a lt] memo_extendsD(7) [OF a lt] by blast+

lemma memo_extends_valid:
  assumes a: "memo_extends s s' d" and lt: "d < p"
    and nv: "p \<notin> valid_positions s" and ni: "p \<notin> invalid_positions s"
  shows "memo_extends s (s'\<lparr>valid_positions := insert p (valid_positions s')\<rparr>) p"
proof -
  let ?t = "s'\<lparr>valid_positions := insert p (valid_positions s')\<rparr>"
  have b: "memo_extends s' ?t p"
  proof (rule memo_extendsI)
    show "q \<in> valid_positions s' \<and> q \<in> invalid_positions s'"
      if "q \<in> valid_positions ?t" "q \<in> invalid_positions ?t" for q
      using that memo_extends_fresh(2) [OF a lt nv ni] by auto
  qed auto
  from memo_extends_trans [OF a b] lt show ?thesis by simp
qed

lemma memo_extends_invalid:
  assumes a: "memo_extends s s' d" and lt: "d < p"
    and nv: "p \<notin> valid_positions s" and ni: "p \<notin> invalid_positions s"
  shows "memo_extends s (s'\<lparr>invalid_positions := insert p (invalid_positions s')\<rparr>) p"
proof -
  let ?t = "s'\<lparr>invalid_positions := insert p (invalid_positions s')\<rparr>"
  have b: "memo_extends s' ?t p"
  proof (rule memo_extendsI)
    show "q \<in> valid_positions s' \<and> q \<in> invalid_positions s'"
      if "q \<in> valid_positions ?t" "q \<in> invalid_positions ?t" for q
      using that memo_extends_fresh(1) [OF a lt nv ni] by auto
  qed auto
  from memo_extends_trans [OF a b] lt show ?thesis by simp
qed

lemma memo_step:
  "is_valid_opcode s p = (r, s') \<Longrightarrow> memo_extends s s' p"
  "for_disqualifier s p b = (r, s') \<Longrightarrow> p \<notin> valid_positions s \<Longrightarrow> p \<notin> invalid_positions s
     \<Longrightarrow> memo_extends s s' p"
proof (induction s p and s p b arbitrary: r s' and r s'
    rule: is_valid_opcode_for_disqualifier.induct)
  case (1 s position)
  then show ?case
    by (auto simp: is_valid_opcode.simps [of s position] memo_extends_refl split: if_splits)
next
  case (2 s position bytes_back)
  note unfold = for_disqualifier.simps [of s position bytes_back]
  show ?case
  proof (cases "potentially_disqualifying_opcode_positions s position bytes_back")
    case (Inl e)
    with "2.prems" show ?thesis
      by (auto simp: unfold memo_extends_refl)
  next
    case (Inr y)
    show ?thesis
    proof (cases y)
      case None
      with Inr "2.prems"(1)
      have "s' = s\<lparr>valid_positions := insert position (valid_positions s)\<rparr>"
        by (auto simp: unfold)
      with memo_extends_valid [OF memo_extends_refl [of s "position - 1"] _ "2.prems"(2,3)]
      show ?thesis by simp
    next
      case (Some db)
      obtain d b' where db: "db = (d, b')" by (cases db)
      from disqualifier_earlier [of s position bytes_back d b'] Inr Some db
      have lt: "d < position" by simp
      obtain r1 s1 where call: "is_valid_opcode s d = (r1, s1)"
        by (cases "is_valid_opcode s d")
      from "2.IH"(1) [OF Inr Some db [symmetric] call]
      have ext: "memo_extends s s1 d" .
      show ?thesis
      proof (cases r1)
        case (Inl e)
        with Inr Some db call "2.prems"(1) have "s' = s1"
          by (simp add: unfold)
        with memo_extends_trans [OF ext memo_extends_refl] lt show ?thesis
          by simp
      next
        case r1: (Inr v)
        show ?thesis
        proof (cases v)
          case True
          with r1 Inr Some db call "2.prems"(1)
          have "s' = s1\<lparr>invalid_positions := insert position (invalid_positions s1)\<rparr>"
            by (simp add: unfold)
          with memo_extends_invalid [OF ext lt "2.prems"(2,3)] show ?thesis
            by simp
        next
          case False
          with r1 Inr Some db call "2.prems"(1)
          have rest: "for_disqualifier s1 position b' = (r, s')"
            by (simp add: unfold)
          note fresh = memo_extends_fresh [OF ext lt "2.prems"(2,3)]
          from "2.IH"(2) [OF Inr Some db [symmetric] _ _ _ rest fresh] call r1 False
          have "memo_extends s1 s' position" by simp
          with memo_extends_trans [OF ext this] lt show ?thesis by simp
        qed
      qed
    qed
  qed
qed

section \<open>The indexing of the classifier stays in range\<close>

text \<open>
  The generator reads the code at positions from \<open>position - 32\<close> (and not below 0) to
  \<open>position - 1\<close>, for a position below the length: it raises no \<^verbatim>\<open>IndexError\<close>. So
  the recursion run to its end returns a boolean (the depth of the call stack apart,
  see above).
\<close>

lemma bytes_getitem_in_range:
  "0 \<le> i \<Longrightarrow> i < int (length bs) \<Longrightarrow> bytes_getitem bs i = Inr (uint (bs ! nat i))"
  by (simp add: bytes_getitem_def Let_def)

lemma disqualifier_in_range:
  "bytes_back \<le> position \<Longrightarrow> position \<le> int (length (raw_code_bytes s))
   \<Longrightarrow> \<exists>y. potentially_disqualifying_opcode_positions s position bytes_back = Inr y"
proof (induction s position bytes_back rule: potentially_disqualifying_opcode_positions.induct)
  case (1 s position bytes_back)
  note unfold = potentially_disqualifying_opcode_positions.simps [of s position bytes_back]
  show ?case
  proof (cases "bytes_back \<le> 0")
    case True
    then show ?thesis by (simp add: unfold)
  next
    case False
    with "1.prems"
    have get: "bytes_getitem (raw_code_bytes s) (position - bytes_back)
                 = Inr (uint (raw_code_bytes s ! nat (position - bytes_back)))"
      by (intro bytes_getitem_in_range) auto
    show ?thesis
    proof (cases "PUSH1 + (bytes_back - 1) \<le> uint (raw_code_bytes s ! nat (position - bytes_back))
                  \<and> uint (raw_code_bytes s ! nat (position - bytes_back)) \<le> PUSH32")
      case True
      with False get show ?thesis by (simp add: unfold Let_def)
    next
      case no: False
      from "1.IH" [OF False refl get no] "1.prems"
      have "\<exists>y. potentially_disqualifying_opcode_positions s position (bytes_back - 1) = Inr y"
        by simp
      with False get no show ?thesis by (simp add: unfold Let_def)
    qed
  qed
qed

lemma is_valid_opcode_in_range:
  "length_cache s = int (length (raw_code_bytes s))
     \<Longrightarrow> \<exists>v. fst (is_valid_opcode s p) = Inr v"
  "length_cache s = int (length (raw_code_bytes s)) \<Longrightarrow> b \<le> p \<Longrightarrow> p < length_cache s
     \<Longrightarrow> \<exists>v. fst (for_disqualifier s p b) = Inr v"
proof (induction s p and s p b rule: is_valid_opcode_for_disqualifier.induct)
  case (1 s position)
  then show ?case
    by (auto simp: is_valid_opcode.simps [of s position])
next
  case (2 s position bytes_back)
  note unfold = for_disqualifier.simps [of s position bytes_back]
  from disqualifier_in_range [of bytes_back position s] "2.prems"
  obtain y where y: "potentially_disqualifying_opcode_positions s position bytes_back = Inr y"
    by auto
  show ?case
  proof (cases y)
    case None
    with y show ?thesis by (auto simp: unfold)
  next
    case (Some db)
    obtain d b' where db: "db = (d, b')" by (cases db)
    from disqualifier_earlier [of s position bytes_back d b'] y Some db
    have b': "b' < bytes_back" by simp
    obtain r1 s1 where call: "is_valid_opcode s d = (r1, s1)"
      by (cases "is_valid_opcode s d")
    from "2.IH"(1) [OF y Some db [symmetric] "2.prems"(1)] call
    obtain v where r1: "r1 = Inr v" by auto
    show ?thesis
    proof (cases v)
      case True
      with y Some db call r1 show ?thesis by (auto simp: unfold)
    next
      case False
      note ext = memo_step(1) [OF call]
      from "2.IH"(2) [OF y Some db [symmetric] _ _ _] call r1 False
        memo_extendsD(2,3) [OF ext] "2.prems" b'
      have "\<exists>v. fst (for_disqualifier s1 position b') = Inr v" by simp
      with y Some db call r1 False show ?thesis by (simp add: unfold)
    qed
  qed
qed

lemma is_valid_opcode_memoised:
  "is_valid_opcode s p = (Inr v, s') \<Longrightarrow> p < length_cache s
     \<Longrightarrow> (if v then p \<in> valid_positions s' else p \<in> invalid_positions s')"
  "for_disqualifier s p b = (Inr v, s')
     \<Longrightarrow> (if v then p \<in> valid_positions s' else p \<in> invalid_positions s')"
proof (induction s p and s p b arbitrary: v s' and v s'
    rule: is_valid_opcode_for_disqualifier.induct)
  case (1 s position)
  then show ?case
    by (auto simp: is_valid_opcode.simps [of s position] split: if_splits)
next
  case (2 s position bytes_back)
  note unfold = for_disqualifier.simps [of s position bytes_back]
  show ?case
  proof (cases "potentially_disqualifying_opcode_positions s position bytes_back")
    case (Inl e)
    with "2.prems" show ?thesis by (simp add: unfold)
  next
    case (Inr y)
    show ?thesis
    proof (cases y)
      case None
      with Inr "2.prems" show ?thesis by (auto simp: unfold)
    next
      case (Some db)
      obtain d b' where db: "db = (d, b')" by (cases db)
      obtain r1 s1 where call: "is_valid_opcode s d = (r1, s1)"
        by (cases "is_valid_opcode s d")
      show ?thesis
      proof (cases r1)
        case (Inl e)
        with Inr Some db call "2.prems" show ?thesis by (simp add: unfold)
      next
        case r1: (Inr w)
        show ?thesis
        proof (cases w)
          case True
          with r1 Inr Some db call "2.prems" show ?thesis by (auto simp: unfold)
        next
          case False
          with r1 Inr Some db call "2.prems"
          have rest: "for_disqualifier s1 position b' = (Inr v, s')"
            by (simp add: unfold)
          from "2.IH"(2) [OF Inr Some db [symmetric] _ _ _ rest] call r1 False
          show ?thesis by simp
        qed
      qed
    qed
  qed
qed

section \<open>The depth of the recursion\<close>

lemma depth_bound:
  "is_valid_opcode_depth s p \<le> nat p + 1"
  "b \<le> p \<Longrightarrow> for_disqualifier_depth s p b \<le> nat p"
proof (induction s p and s p b rule: is_valid_opcode_depth_for_disqualifier_depth.induct)
  case (1 s position)
  then show ?case
    by (auto simp: is_valid_opcode_depth.simps [of s position])
next
  case (2 s position bytes_back)
  note unfold = for_disqualifier_depth.simps [of s position bytes_back]
  show ?case
  proof (cases "potentially_disqualifying_opcode_positions s position bytes_back")
    case (Inl e)
    then show ?thesis by (simp add: unfold)
  next
    case (Inr y)
    show ?thesis
    proof (cases y)
      case None
      with Inr show ?thesis by (simp add: unfold)
    next
      case (Some db)
      obtain d b' where db: "db = (d, b')" by (cases db)
      from disqualifier_earlier [of s position bytes_back d b'] Inr Some db
      have range: "0 \<le> b'" "b' < bytes_back" "d = position - (b' + 1)" by simp_all
      with "2.prems" have d: "0 \<le> d" "d < position" by simp_all
      from "2.IH"(1) [OF Inr Some db [symmetric]] d
      have first: "is_valid_opcode_depth s d \<le> nat position" by simp
      obtain r1 s1 where call: "is_valid_opcode s d = (r1, s1)"
        by (cases "is_valid_opcode s d")
      have rest: "(case is_valid_opcode s d of
                     (Inl e, s') \<Rightarrow> 0
                   | (Inr True, s') \<Rightarrow> 0
                   | (Inr False, s') \<Rightarrow> for_disqualifier_depth s' position b')
                  \<le> nat position"
      proof (cases r1)
        case (Inl e)
        with call show ?thesis by simp
      next
        case r1: (Inr v)
        show ?thesis
        proof (cases v)
          case True
          with r1 call show ?thesis by simp
        next
          case False
          from "2.IH"(2) [OF Inr Some db [symmetric] _ _ _] call r1 False range "2.prems"
          have "for_disqualifier_depth s1 position b' \<le> nat position" by simp
          with r1 call False show ?thesis by simp
        qed
      qed
      from first rest Inr Some db show ?thesis by (simp add: unfold)
    qed
  qed
qed

lemma uint_PUSH1: "uint (word_of_int PUSH1 :: byte) = 96"
  by (simp add: PUSH1_def)

lemma push1_chain_disqualifier:
  "raw_code_bytes s = replicate n (word_of_int PUSH1) \<Longrightarrow> 0 < b \<Longrightarrow> b \<le> p \<Longrightarrow> p \<le> int n
   \<Longrightarrow> potentially_disqualifying_opcode_positions s p b = Inr (Some (p - 1, 0))"
proof (induction s p b rule: potentially_disqualifying_opcode_positions.induct)
  case (1 s position bytes_back)
  note unfold = potentially_disqualifying_opcode_positions.simps [of s position bytes_back]
  from "1.prems"
  have get: "bytes_getitem (raw_code_bytes s) (position - bytes_back) = Inr 96"
    by (simp add: bytes_getitem_in_range uint_PUSH1)
  show ?case
  proof (cases "bytes_back = 1")
    case True
    with get show ?thesis
      by (subst potentially_disqualifying_opcode_positions.simps)
         (simp add: PUSH1_def PUSH32_def)
  next
    case False
    with "1.prems" have more: "1 < bytes_back" by simp
    then have no: "\<not> (PUSH1 + (bytes_back - 1) \<le> 96 \<and> 96 \<le> PUSH32)"
      by (simp add: PUSH1_def)
    from more have pos: "\<not> bytes_back \<le> 0" by simp
    from "1.IH" [OF pos refl get no] "1.prems" more
    have "potentially_disqualifying_opcode_positions s position (bytes_back - 1)
            = Inr (Some (position - 1, 0))"
      by simp
    with get more show ?thesis
      by (simp add: unfold Let_def PUSH1_def PUSH32_def)
  qed
qed

lemma push1_chain_depth:
  assumes raw: "raw_code_bytes s = replicate n (word_of_int PUSH1)"
    and len: "length_cache s = int n"
    and fresh: "valid_positions s = {}" "invalid_positions s = {}"
  shows "k < n \<Longrightarrow> k + 1 \<le> is_valid_opcode_depth s (int k)"
proof (induction k)
  case 0
  then show ?case
    using len fresh by (simp add: is_valid_opcode_depth.simps [of s 0])
next
  case (Suc k)
  let ?p = "int (Suc k)"
  have "0 < min 32 ?p" "min 32 ?p \<le> ?p" by simp_all
  from push1_chain_disqualifier [OF raw this] Suc.prems
  have "potentially_disqualifying_opcode_positions s ?p (min 32 ?p) = Inr (Some (int k, 0))"
    by simp
  then have "is_valid_opcode_depth s (int k) \<le> for_disqualifier_depth s ?p (min 32 ?p)"
    by (subst for_disqualifier_depth.simps) simp
  moreover from Suc have "k + 1 \<le> is_valid_opcode_depth s (int k)" by simp
  moreover from Suc.prems len fresh
  have "is_valid_opcode_depth s ?p = 1 + for_disqualifier_depth s ?p (min 32 ?p)"
    by (subst is_valid_opcode_depth.simps) simp
  ultimately show ?case by simp
qed


section \<open>The cursor and the callers\<close>

lemma evolves_refl: "evolves s s"
  by (simp add: evolves_def)

lemma evolves_trans: "evolves s s' \<Longrightarrow> evolves s' s'' \<Longrightarrow> evolves s s''"
  unfolding evolves_def by auto

lemma init_inv: "cs_inv (init code_bytes)"
  by (simp add: cs_inv_def init_def bytes_io_new_def)

lemma read_evolves: "evolves s (snd (read s n))"
  by (simp add: read_def bytes_io_read_def evolves_def Let_def)

lemma read_inv: "cs_inv s \<Longrightarrow> cs_inv (snd (read s n))"
  by (auto simp: read_def bytes_io_read_def cs_inv_def Let_def)

lemma read_one:
  "read s 1 = (Inr (take 1 (drop (nat (pos (stream s))) (buf (stream s)))),
               snd (read s 1))"
  by (auto simp: read_def bytes_io_read_def Let_def SSIZE_MIN_def SSIZE_MAX_def
      intro: arg_cong [where f = "\<lambda>k. take k _"])

lemma read_stream:
  "snd (read s n) = s\<lparr>stream := (stream s)\<lparr>pos := pos (stream (snd (read s n)))\<rparr>\<rparr>"
  by (simp add: read_def bytes_io_read_def Let_def)

lemma pc_setter_ok:
  "cs_inv s \<Longrightarrow> 0 \<le> v
   \<Longrightarrow> pc_setter s v = (Inr (), s\<lparr>stream := (stream s)\<lparr>pos := min v (len s)\<rparr>\<rparr>)"
  by (simp add: pc_setter_def bytes_io_seek_def cs_inv_def len_def SSIZE_MIN_def)

lemma pc_setter_negative:
  "cs_inv s \<Longrightarrow> v < 0
   \<Longrightarrow> pc_setter s v = (Inl (if v < SSIZE_MIN then OverflowError else ValueError), s)"
  by (simp add: pc_setter_def bytes_io_seek_def cs_inv_def len_def SSIZE_MIN_def)

lemma pc_setter_evolves: "evolves s (snd (pc_setter s v))"
  by (simp add: pc_setter_def bytes_io_seek_def evolves_def)

lemma pc_setter_inv: "cs_inv s \<Longrightarrow> cs_inv (snd (pc_setter s v))"
  by (cases "v < 0") (auto simp: pc_setter_ok pc_setter_negative cs_inv_def len_def)

lemma cs_next_state: "snd (cs_next s) = snd (read s 1)"
  by (cases "read s 1") (auto simp: cs_next_def split: sum.splits list.splits)

lemma cs_next_evolves: "evolves s (snd (cs_next s))"
  using read_evolves [of s 1] by (simp add: cs_next_state)

lemma cs_next_inv: "cs_inv s \<Longrightarrow> cs_inv (snd (cs_next s))"
  using read_inv [of s 1] by (simp add: cs_next_state)

lemma short_list: "length xs \<le> 1 \<Longrightarrow> xs = [] \<or> (\<exists>x. xs = [x])"
  by (cases xs) auto

lemma cs_next_no_error: "\<exists>v. fst (cs_next s) = Inr v"
proof -
  obtain bs s' where r: "read s 1 = (Inr bs, s')" and short: "length bs \<le> 1"
    using read_one [of s] by (metis length_take min.cobounded2)
  from short_list [OF short] r show ?thesis
    by (auto simp: cs_next_def)
qed

lemma cs_next_at_end:
  "cs_inv s \<Longrightarrow> pc s = len s \<Longrightarrow> cs_next s = (Inr STOP, s)"
  by (simp add: cs_next_def read_def bytes_io_read_def cs_inv_def pc_def len_def
      bytes_io_tell_def Let_def SSIZE_MIN_def SSIZE_MAX_def)

lemma cs_next_restore:
  "cs_inv s \<Longrightarrow> pc_setter (snd (cs_next s)) (pc s) = (Inr (), s)"
proof -
  assume inv: "cs_inv s"
  have frame: "snd (cs_next s) = s\<lparr>stream := (stream s)\<lparr>pos := pos (stream (snd (cs_next s)))\<rparr>\<rparr>"
    using read_stream [of s 1] by (simp add: cs_next_state)
  from inv have bounds: "0 \<le> pc s" "pc s \<le> len (snd (cs_next s))"
    using cs_next_evolves [of s]
    by (simp_all add: cs_inv_def pc_def bytes_io_tell_def len_def evolves_def)
  from pc_setter_ok [OF cs_next_inv [OF inv] bounds(1)] bounds(2)
  have "pc_setter (snd (cs_next s)) (pc s)
          = (Inr (), (snd (cs_next s))\<lparr>stream := (stream (snd (cs_next s)))\<lparr>pos := pc s\<rparr>\<rparr>)"
    by (simp add: min_def)
  also have "(snd (cs_next s))\<lparr>stream := (stream (snd (cs_next s)))\<lparr>pos := pc s\<rparr>\<rparr> = s"
    by (subst (1 2) frame) (simp add: pc_def bytes_io_tell_def)
  finally show ?thesis .
qed

lemma peek_is_next: "cs_inv s \<Longrightarrow> peek s = (fst (cs_next s), s)"
proof -
  assume inv: "cs_inv s"
  obtain r s1 where n: "cs_next s = (r, s1)" by (cases "cs_next s")
  from cs_next_no_error [of s] n obtain v where v: "r = Inr v" by auto
  from cs_next_restore [OF inv] n have "pc_setter s1 (pc s) = (Inr (), s)" by simp
  with n v show ?thesis
    by (simp add: peek_def Let_def)
qed

lemma peek_evolves: "evolves s (snd (peek s))"
proof -
  obtain r s1 where n: "cs_next s = (r, s1)" by (cases "cs_next s")
  with cs_next_evolves [of s] have e1: "evolves s s1" by simp
  show ?thesis
  proof (cases r)
    case (Inl e)
    with n e1 show ?thesis by (simp add: peek_def Let_def)
  next
    case (Inr v)
    obtain r2 s2 where p: "pc_setter s1 (pc s) = (r2, s2)" by (cases "pc_setter s1 (pc s)")
    with pc_setter_evolves [of s1 "pc s"] have "evolves s1 s2" by simp
    with e1 have "evolves s s2" by (rule evolves_trans)
    with n Inr p show ?thesis by (cases r2) (simp_all add: peek_def Let_def)
  qed
qed

lemma seek_evolves:
  assumes "\<And>t. evolves t (snd (body t))"
  shows "evolves s (snd (seek target body s))"
proof -
  obtain r1 s1 where a: "pc_setter s target = (r1, s1)" by (cases "pc_setter s target")
  with pc_setter_evolves [of s target] have e1: "evolves s s1" by simp
  show ?thesis
  proof (cases r1)
    case (Inl e)
    with a e1 show ?thesis by (simp add: seek_def Let_def)
  next
    case (Inr u)
    obtain r2 s2 where b: "body s1 = (r2, s2)" by (cases "body s1")
    with assms [of s1] have e2: "evolves s1 s2" by simp
    obtain r3 s3 where c: "pc_setter s2 (pc s) = (r3, s3)" by (cases "pc_setter s2 (pc s)")
    with pc_setter_evolves [of s2 "pc s"] have e3: "evolves s2 s3" by simp
    from e1 e2 e3 have "evolves s s3" by (blast intro: evolves_trans)
    with a Inr b c show ?thesis by (cases r3) (simp_all add: seek_def Let_def)
  qed
qed

lemma seek_inv:
  assumes "\<And>t. cs_inv t \<Longrightarrow> cs_inv (snd (body t))" and "cs_inv s"
  shows "cs_inv (snd (seek target body s))"
proof -
  obtain r1 s1 where a: "pc_setter s target = (r1, s1)" by (cases "pc_setter s target")
  with pc_setter_inv [OF assms(2), of target] have i1: "cs_inv s1" by simp
  show ?thesis
  proof (cases r1)
    case (Inl e)
    with a i1 show ?thesis by (simp add: seek_def Let_def)
  next
    case (Inr u)
    obtain r2 s2 where b: "body s1 = (r2, s2)" by (cases "body s1")
    with assms(1) [OF i1] have i2: "cs_inv s2" by simp
    obtain r3 s3 where c: "pc_setter s2 (pc s) = (r3, s3)" by (cases "pc_setter s2 (pc s)")
    with pc_setter_inv [OF i2, of "pc s"] have "cs_inv s3" by simp
    with a Inr b c show ?thesis by (cases r3) (simp_all add: seek_def Let_def)
  qed
qed

lemma is_valid_opcode_evolves: "evolves s (snd (is_valid_opcode s p))"
proof -
  obtain r s' where c: "is_valid_opcode s p = (r, s')" by (cases "is_valid_opcode s p")
  note ext = memo_step(1) [OF c]
  from memo_extendsD(1-5) [OF ext] c show ?thesis
    by (auto simp: evolves_def)
qed

lemma is_valid_opcode_inv: "cs_inv s \<Longrightarrow> cs_inv (snd (is_valid_opcode s p))"
proof -
  assume inv: "cs_inv s"
  obtain r s' where c: "is_valid_opcode s p = (r, s')" by (cases "is_valid_opcode s p")
  note ext = memo_step(1) [OF c]
  from inv have "valid_positions s \<inter> invalid_positions s = {}" by (simp add: cs_inv_def)
  with memo_extendsD(8) [OF ext] have "valid_positions s' \<inter> invalid_positions s' = {}"
    by blast
  with inv memo_extendsD(1-3) [OF ext] c show ?thesis
    by (simp add: cs_inv_def)
qed

lemma exec_evolves:
  "evolves s (snd (exec x s))"
  "evolves s (snd (exec_body xs s))"
proof (induction x s and xs s rule: exec_exec_body.induct)
  case (1 n s)
  from read_evolves [of s n] show ?case by (simp add: case_prod_unfold)
next
  case (3 s)
  from cs_next_evolves [of s] show ?case by (simp add: case_prod_unfold)
next
  case (5 s)
  from peek_evolves [of s] show ?case by (simp add: case_prod_unfold)
next
  case (7 v s)
  from pc_setter_evolves [of s v] show ?case by (simp add: case_prod_unfold)
next
  case (8 p s)
  from is_valid_opcode_evolves [of s p] show ?case by (simp add: case_prod_unfold)
next
  case (9 target body s)
  from seek_evolves [of "exec_body body" s target, OF 9] show ?case by simp
next
  case (10 body s)
  then show ?case by (simp add: case_prod_unfold)
next
  case (12 x xs s)
  obtain r s1 where e: "exec x s = (r, s1)" by (cases "exec x s")
  with "12.IH"(1) have e1: "evolves s s1" by simp
  show ?case
  proof (cases r)
    case (Inl err)
    with e e1 show ?thesis by simp
  next
    case (Inr v)
    from "12.IH"(2) [OF e [symmetric] Inr] have "evolves s1 (snd (exec_body xs s1))" .
    with e1 have "evolves s (snd (exec_body xs s1))" by (rule evolves_trans)
    with e Inr show ?thesis by simp
  qed
qed (simp_all add: evolves_refl)

lemma exec_inv:
  "cs_inv s \<Longrightarrow> cs_inv (snd (exec x s))"
  "cs_inv s \<Longrightarrow> cs_inv (snd (exec_body xs s))"
proof (induction x s and xs s rule: exec_exec_body.induct)
  case (1 n s)
  from read_inv [OF "1.prems", of n] show ?case by (simp add: case_prod_unfold)
next
  case (3 s)
  from cs_next_inv [OF "3.prems"] show ?case by (simp add: case_prod_unfold)
next
  case (5 s)
  from peek_is_next [OF "5.prems"] "5.prems" show ?case by simp
next
  case (7 v s)
  from pc_setter_inv [OF "7.prems", of v] show ?case by (simp add: case_prod_unfold)
next
  case (8 p s)
  from is_valid_opcode_inv [OF "8.prems", of p] show ?case by (simp add: case_prod_unfold)
next
  case (9 target body s)
  from seek_inv [of "exec_body body" s target, OF "9.IH" "9.prems"] show ?case by simp
next
  case (10 body s)
  then show ?case by (simp add: case_prod_unfold)
next
  case (12 x xs s)
  obtain r s1 where e: "exec x s = (r, s1)" by (cases "exec x s")
  with "12.IH"(1) [OF "12.prems"] have i1: "cs_inv s1" by simp
  show ?case
  proof (cases r)
    case (Inl err)
    with e i1 show ?thesis by simp
  next
    case (Inr v)
    from "12.IH"(2) [OF e [symmetric] Inr i1] e Inr show ?thesis by simp
  qed
qed simp_all

lemma calls_fixed:
  "m s = (r, s) \<Longrightarrow> calls n m s = (replicate n r, s)"
  by (induction n) simp_all

section \<open>The claims\<close>

text \<open>
  C1. On the buffer \<open>[PUSH2, PUSH1, 0x00, 0x00]\<close> position 0 is a valid
  opcode, positions 1 and 2 are not (they are the data of the \<open>PUSH2\<close>, also position 1,
  whose byte is the opcode \<open>PUSH1\<close>), and position 3 is valid. This holds for each
  position asked of a fresh stream, and for the four asked of one stream in turn.
\<close>

theorem push2_data_is_not_an_opcode:
  "fst (is_valid_opcode (init [word_of_int PUSH2, word_of_int PUSH1, 0, 0]) 0) = Inr True \<and>
   fst (is_valid_opcode (init [word_of_int PUSH2, word_of_int PUSH1, 0, 0]) 1) = Inr False \<and>
   fst (is_valid_opcode (init [word_of_int PUSH2, word_of_int PUSH1, 0, 0]) 2) = Inr False \<and>
   fst (is_valid_opcode (init [word_of_int PUSH2, word_of_int PUSH1, 0, 0]) 3) = Inr True \<and>
   (case is_valid_opcode (init [word_of_int PUSH2, word_of_int PUSH1, 0, 0]) 0 of (r0, s0) \<Rightarrow>
    case is_valid_opcode s0 1 of (r1, s1) \<Rightarrow>
    case is_valid_opcode s1 2 of (r2, s2) \<Rightarrow>
    case is_valid_opcode s2 3 of (r3, s3) \<Rightarrow>
      [r0, r1, r2, r3] = [Inr True, Inr False, Inr False, Inr True] \<and>
      valid_positions s3 = {0, 3} \<and> invalid_positions s3 = {1, 2})"
  by code_simp

text \<open>
  C2. In a stream's state, a negative position that is in neither memo set
  is classified as a valid opcode and added to \<open>valid_positions\<close>: it is below the
  length, and its lookback window is empty. Nothing else of the state changes.
\<close>

theorem negative_position_is_valid:
  assumes "cs_inv s" and "p < 0"
    and "p \<notin> invalid_positions s" and "p \<notin> valid_positions s"
  shows "is_valid_opcode s p = (Inr True, s\<lparr>valid_positions := insert p (valid_positions s)\<rparr>)"
proof -
  from assms(1) have "0 \<le> length_cache s" by (simp add: cs_inv_def)
  with assms(2) have "\<not> length_cache s \<le> p" by simp
  moreover from assms(2) have "min 32 p = p" by simp
  ultimately show ?thesis
    using assms(2,3,4)
    by (simp add: is_valid_opcode.simps [of s p] for_disqualifier.simps [of s p p]
        potentially_disqualifying_opcode_positions.simps [of s p p])
qed

theorem negative_position_is_valid_witness:
  "cs_inv (init []) \<and>
   is_valid_opcode (init []) (- 1) = (Inr True, (init [])\<lparr>valid_positions := {- 1}\<rparr>)"
proof -
  have inv: "cs_inv (init [])"
    by (simp add: cs_inv_def init_def bytes_io_new_def)
  from negative_position_is_valid [OF inv, of "- 1"] inv show ?thesis
    by (simp add: init_def)
qed

text \<open>
  C4. A position at or past the length is not a valid opcode: the call returns
  \<open>False\<close>, raises nothing and leaves the whole state, the memo sets with it, as it was.
\<close>

theorem position_past_the_end_is_invalid:
  "len s \<le> p \<Longrightarrow> is_valid_opcode s p = (Inr False, s)"
  by (simp add: is_valid_opcode.simps [of s p] len_def)

theorem position_past_the_end_is_invalid_witness:
  "len (init [word_of_int PUSH1, 1]) \<le> 2 \<and>
   is_valid_opcode (init [word_of_int PUSH1, 1]) 2 = (Inr False, init [word_of_int PUSH1, 1])"
proof -
  have le: "len (init [word_of_int PUSH1, 1]) \<le> 2"
    by (simp add: len_def init_def)
  from position_past_the_end_is_invalid [OF le] le show ?thesis
    by simp
qed

text \<open>
  C3 (as the claim states it). The recursion of \<open>is_valid_opcode\<close> is not bounded by the
  width of the lookback window: on forty \<open>PUSH1\<close> bytes and a fresh memo, the call for
  position 39 calls itself for position 38, that one for position 37, and so on down to
  position 0, forty activations deep.
\<close>

theorem recursion_deeper_than_window:
  "is_valid_opcode_depth (init (replicate 40 (word_of_int PUSH1))) 39 = 40 \<and>
   \<not> is_valid_opcode_depth (init (replicate 40 (word_of_int PUSH1))) 39 \<le> 32"
proof -
  let ?s = "init (replicate 40 (word_of_int PUSH1))"
  have "39 + 1 \<le> is_valid_opcode_depth ?s (int 39)"
    by (rule push1_chain_depth [where n = 40]) (simp_all add: init_def)
  moreover have "is_valid_opcode_depth ?s 39 \<le> nat 39 + 1"
    by (rule depth_bound(1))
  ultimately show ?thesis by simp
qed

text \<open>
  C3 (amended). The recursion ends, and its depth is bounded by the position: a call
  for position \<open>p\<close> has at most \<open>p + 1\<close> activations on the stack (one for a negative
  \<open>p\<close>), whatever the buffer and the memo.
\<close>

theorem recursion_depth_bounded_by_position:
  "is_valid_opcode_depth s p \<le> nat p + 1"
  by (rule depth_bound(1))

text \<open>
  C5. Whatever a caller does with a stream from its construction on (reads, moves of
  the cursor, blocks under the seek guard, classifications, in any order and with
  exceptions caught or not), no position is in both \<open>valid_positions\<close> and
  \<open>invalid_positions\<close>.
\<close>

theorem memo_sets_disjoint:
  "valid_positions (snd (exec_body ops (init code_bytes)))
     \<inter> invalid_positions (snd (exec_body ops (init code_bytes))) = {}"
  using exec_inv(2) [OF init_inv, of ops code_bytes]
  by (simp add: cs_inv_def)

text \<open>
  C6. Once \<open>is_valid_opcode\<close> has returned a boolean for a position, it returns the
  same boolean for that position after any further use of the stream, and the later
  call leaves the state as it found it. For a position below the length the answer
  comes from the memo: the first call has put the position in the set of its answer
  (\<open>valid_positions\<close> for \<open>True\<close>, \<open>invalid_positions\<close> for \<open>False\<close>) and not in the
  other; nothing the caller does afterwards takes a position out of either set, so the
  position is still in that set, and in that set only, when the later call looks it up.
  A position at or past the length is answered \<open>False\<close> by the range check, both times,
  and the call leaves the state alone.
\<close>

theorem memoised_answer_is_stable:
  assumes inv: "cs_inv s"
    and first: "is_valid_opcode s p = (Inr b, s1)"
    and later: "exec_body ops s1 = (x, s2)"
  shows "is_valid_opcode s2 p = (Inr b, s2) \<and>
         valid_positions s1 \<subseteq> valid_positions s2 \<and>
         invalid_positions s1 \<subseteq> invalid_positions s2 \<and>
         (if len s \<le> p then \<not> b \<and> s1 = s
          else if b
            then p \<in> valid_positions s1 \<and> p \<notin> invalid_positions s1 \<and>
                 p \<in> valid_positions s2 \<and> p \<notin> invalid_positions s2
            else p \<in> invalid_positions s1 \<and> p \<notin> valid_positions s1 \<and>
                 p \<in> invalid_positions s2 \<and> p \<notin> valid_positions s2)"
proof -
  from is_valid_opcode_inv [OF inv, of p] first have inv1: "cs_inv s1" by simp
  from exec_inv(2) [OF inv1, of ops] later have inv2: "cs_inv s2" by simp
  from is_valid_opcode_evolves [of s p] first have e1: "evolves s s1" by simp
  from exec_evolves(2) [of s1 ops] later have e2: "evolves s1 s2" by simp
  from e1 e2 have len: "length_cache s2 = length_cache s"
    by (simp add: evolves_def)
  from e2 have kept: "valid_positions s1 \<subseteq> valid_positions s2"
    "invalid_positions s1 \<subseteq> invalid_positions s2"
    by (simp_all add: evolves_def)
  from inv1 have d1: "valid_positions s1 \<inter> invalid_positions s1 = {}"
    by (simp add: cs_inv_def)
  from inv2 have d2: "valid_positions s2 \<inter> invalid_positions s2 = {}"
    by (simp add: cs_inv_def)
  show ?thesis
  proof (cases "len s \<le> p")
    case True
    with first have "\<not> b" "s1 = s"
      by (simp_all add: is_valid_opcode.simps [of s p] len_def)
    moreover from True len \<open>\<not> b\<close> have "is_valid_opcode s2 p = (Inr b, s2)"
      by (simp add: is_valid_opcode.simps [of s2 p] len_def)
    ultimately show ?thesis using True kept by simp
  next
    case False
    then have below: "p < length_cache s" by (simp add: len_def)
    from is_valid_opcode_memoised(1) [OF first below]
    have memo1: "if b then p \<in> valid_positions s1 else p \<in> invalid_positions s1" .
    show ?thesis
    proof (cases b)
      case True
      with memo1 have v1: "p \<in> valid_positions s1" by simp
      with kept have v2: "p \<in> valid_positions s2" by blast
      from v1 d1 have i1: "p \<notin> invalid_positions s1" by blast
      from v2 d2 have i2: "p \<notin> invalid_positions s2" by blast
      from v2 i2 below len True have "is_valid_opcode s2 p = (Inr b, s2)"
        by (simp add: is_valid_opcode.simps [of s2 p])
      with v1 v2 i1 i2 kept True False show ?thesis by simp
    next
      case no: False
      with memo1 have i1: "p \<in> invalid_positions s1" by simp
      with kept have i2: "p \<in> invalid_positions s2" by blast
      from i1 d1 have v1: "p \<notin> valid_positions s1" by blast
      from i2 d2 have v2: "p \<notin> valid_positions s2" by blast
      from i2 below len no have "is_valid_opcode s2 p = (Inr b, s2)"
        by (simp add: is_valid_opcode.simps [of s2 p])
      with v1 v2 i1 i2 kept no False show ?thesis by simp
    qed
  qed
qed

theorem memoised_answer_is_stable_witness:
  "cs_inv (init [word_of_int PUSH2, word_of_int PUSH1, 0, 0]) \<and>
   is_valid_opcode (init [word_of_int PUSH2, word_of_int PUSH1, 0, 0]) 1
     = (Inr False, snd (is_valid_opcode (init [word_of_int PUSH2, word_of_int PUSH1, 0, 0]) 1)) \<and>
   is_valid_opcode
     (snd (exec_body [Next, IsValidOpcode 3, Seek 2 [Peek], SetPc 0, IsValidOpcode 2]
        (snd (is_valid_opcode (init [word_of_int PUSH2, word_of_int PUSH1, 0, 0]) 1)))) 1
   = (Inr False,
      snd (exec_body [Next, IsValidOpcode 3, Seek 2 [Peek], SetPc 0, IsValidOpcode 2]
        (snd (is_valid_opcode (init [word_of_int PUSH2, word_of_int PUSH1, 0, 0]) 1)))) \<and>
   1 \<in> invalid_positions (snd (is_valid_opcode (init [word_of_int PUSH2, word_of_int PUSH1, 0, 0]) 1)) \<and>
   1 \<in> invalid_positions
     (snd (exec_body [Next, IsValidOpcode 3, Seek 2 [Peek], SetPc 0, IsValidOpcode 2]
        (snd (is_valid_opcode (init [word_of_int PUSH2, word_of_int PUSH1, 0, 0]) 1)))) \<and>
   1 \<notin> valid_positions
     (snd (exec_body [Next, IsValidOpcode 3, Seek 2 [Peek], SetPc 0, IsValidOpcode 2]
        (snd (is_valid_opcode (init [word_of_int PUSH2, word_of_int PUSH1, 0, 0]) 1))))"
proof -
  let ?s = "init [word_of_int PUSH2, word_of_int PUSH1, 0, 0]"
  let ?ops = "[Next, IsValidOpcode 3, Seek 2 [Peek], SetPc 0, IsValidOpcode 2]"
  let ?s1 = "snd (is_valid_opcode ?s 1)"
  let ?s2 = "snd (exec_body ?ops ?s1)"
  have "fst (is_valid_opcode ?s 1) = Inr False" by code_simp
  then have first: "is_valid_opcode ?s 1 = (Inr False, ?s1)"
    by (simp add: prod_eq_iff)
  have later: "exec_body ?ops ?s1 = (fst (exec_body ?ops ?s1), ?s2)"
    by (simp add: prod_eq_iff)
  have l: "\<not> len ?s \<le> 1" by (simp add: len_def init_def)
  note w = memoised_answer_is_stable [OF init_inv first later]
  from w [THEN conjunct1] have a: "is_valid_opcode ?s2 1 = (Inr False, ?s2)" .
  from w [THEN conjunct2, THEN conjunct2, THEN conjunct2] l
  have b: "1 \<in> invalid_positions ?s1 \<and> 1 \<notin> valid_positions ?s1 \<and>
           1 \<in> invalid_positions ?s2 \<and> 1 \<notin> valid_positions ?s2"
    by (simp only: if_False simp_thms)
  note b1 = b [THEN conjunct1]
    and b3 = b [THEN conjunct2, THEN conjunct2, THEN conjunct1]
    and b4 = b [THEN conjunct2, THEN conjunct2, THEN conjunct2]
  show ?thesis
    by (intro conjI) (rule init_inv first a b1 b3 b4)+
qed

text \<open>
  C7. The seek guard restores the cursor. For a stream in a state its methods produce,
  any target and any body that leaves the cached length alone (the body may move the
  cursor anywhere, raise, or enter the guard again), the position after the guard is
  the position the guard captured on entry. This covers the three exits: the target
  refused before the body runs, the body returning, and the body raising.
\<close>

theorem seek_restores_position:
  assumes inv: "cs_inv s" and body: "\<And>t. length_cache (snd (body t)) = length_cache t"
  shows "pc (snd (seek target body s)) = pc s"
proof (cases "target < 0")
  case True
  with pc_setter_negative [OF inv] show ?thesis by (simp add: seek_def Let_def)
next
  case False
  let ?s1 = "s\<lparr>stream := (stream s)\<lparr>pos := min target (len s)\<rparr>\<rparr>"
  from False pc_setter_ok [OF inv, of target]
  have a: "pc_setter s target = (Inr (), ?s1)" by simp
  obtain r2 s2 where b: "body ?s1 = (r2, s2)" by (cases "body ?s1")
  with body [of ?s1] have len: "length_cache s2 = length_cache s" by simp
  from inv have bounds: "0 \<le> pc s" "pc s \<le> length_cache s"
    by (simp_all add: cs_inv_def pc_def bytes_io_tell_def)
  with len have "pc_setter s2 (pc s) = (Inr (), s2\<lparr>stream := (stream s2)\<lparr>pos := pc s\<rparr>\<rparr>)"
    by (simp add: pc_setter_def bytes_io_seek_def len_def min_def SSIZE_MIN_def)
  with a b show ?thesis
    by (simp add: seek_def Let_def pc_def bytes_io_tell_def)
qed

theorem seek_restores_position_witness:
  "cs_inv (snd (cs_next (init [1, 2, 3]))) \<and>
   pc (snd (cs_next (init [1, 2, 3]))) = 1 \<and>
   fst (seek 2 (exec_body [SetPc 3, Seek 0 [Next, GetItem 7]]) (snd (cs_next (init [1, 2, 3]))))
     = Inl IndexError \<and>
   pc (snd (seek 2 (exec_body [SetPc 3, Seek 0 [Next, GetItem 7]])
        (snd (cs_next (init [1, 2, 3]))))) = 1"
proof -
  let ?s = "snd (cs_next (init [1, 2, 3]))"
  let ?body = "exec_body [SetPc 3, Seek 0 [Next, GetItem 7]]"
  have inv: "cs_inv ?s" by (rule cs_next_inv [OF init_inv])
  have frame: "length_cache (snd (?body t)) = length_cache t" for t
    using exec_evolves(2) [of t "[SetPc 3, Seek 0 [Next, GetItem 7]]"]
    by (simp only: evolves_def)
  have at: "pc ?s = 1" by code_simp
  have raised: "fst (seek 2 ?body ?s) = Inl IndexError" by code_simp
  from seek_restores_position [of ?s ?body 2, OF inv frame] at raised inv
  show ?thesis by simp
qed

text \<open>
  C8. With the cursor at the end of the code, \<open>next\<close> returns \<open>STOP\<close> and raises
  nothing, and it leaves the state as it was: any number of calls in a row return
  \<open>STOP\<close> each, and the position stays at the length.
\<close>

theorem next_at_end_returns_stop:
  assumes "cs_inv s" and "pc s = len s"
  shows "calls n cs_next s = (replicate n (Inr STOP), s)"
  using cs_next_at_end [OF assms] by (rule calls_fixed)

theorem next_at_end_returns_stop_witness:
  "cs_inv (snd (read (init [7, 9]) 2)) \<and>
   pc (snd (read (init [7, 9]) 2)) = len (snd (read (init [7, 9]) 2)) \<and>
   calls 3 cs_next (snd (read (init [7, 9]) 2))
     = ([Inr STOP, Inr STOP, Inr STOP], snd (read (init [7, 9]) 2))"
proof -
  let ?s = "snd (read (init [7, 9]) 2)"
  have inv: "cs_inv ?s" by (rule read_inv [OF init_inv])
  have at: "pc ?s = len ?s" by code_simp
  from next_at_end_returns_stop [OF inv at, of 3] inv at show ?thesis
    by (simp add: numeral_3_eq_3)
qed

text \<open>
  C9. \<open>peek\<close> returns what \<open>next\<close> would return and leaves the state, the cursor
  with it, as it was; so any number of calls of \<open>peek\<close> in a row return that same
  value and leave the state as it was.
\<close>

theorem peek_leaves_cursor:
  assumes "cs_inv s"
  shows "peek s = (fst (cs_next s), s) \<and> calls n peek s = (replicate n (fst (cs_next s)), s)"
  using peek_is_next [OF assms] calls_fixed [of peek s "fst (cs_next s)" n] by simp

theorem peek_leaves_cursor_witness:
  "cs_inv (snd (cs_next (init [7, 9]))) \<and>
   peek (snd (cs_next (init [7, 9]))) = (Inr 9, snd (cs_next (init [7, 9]))) \<and>
   calls 2 peek (snd (cs_next (init [7, 9]))) = ([Inr 9, Inr 9], snd (cs_next (init [7, 9])))"
proof -
  let ?s = "snd (cs_next (init [7, 9]))"
  have inv: "cs_inv ?s" by (rule cs_next_inv [OF init_inv])
  have nxt: "fst (cs_next ?s) = Inr 9" by code_simp
  from peek_leaves_cursor [OF inv, of 2] nxt inv show ?thesis
    by (simp add: numeral_2_eq_2)
qed

text \<open>
  C10 (as the claim states it). Setting the cursor does raise for some targets: the
  target \<open>-1\<close> is passed on to \<open>seek\<close> of the byte stream as \<open>min (-1) length = -1\<close>,
  and \<open>seek\<close> raises \<open>ValueError\<close> on it; the position stays where it was.
\<close>

theorem negative_pc_raises:
  "pc_setter (init [1, 2, 3]) (- 1) = (Inl ValueError, init [1, 2, 3])"
  by (simp add: pc_setter_def bytes_io_seek_def init_def bytes_io_new_def len_def SSIZE_MIN_def)

text \<open>
  C10 (amended). For a target \<open>t \<ge> 0\<close>, setting the cursor raises nothing and puts the
  position at \<open>min t length\<close>. So after any sequence of operations, refused targets
  among them, the position is within \<open>[0, length]\<close>.
\<close>

theorem pc_setter_clamps:
  assumes "cs_inv s" and "0 \<le> t"
  shows "pc_setter s t = (Inr (), s\<lparr>stream := (stream s)\<lparr>pos := min t (len s)\<rparr>\<rparr>) \<and>
         pc (snd (pc_setter s t)) = min t (len s) \<and>
         0 \<le> pc (snd (exec_body ops s)) \<and>
         pc (snd (exec_body ops s)) \<le> len (snd (exec_body ops s))"
proof -
  note set = pc_setter_ok [OF assms]
  moreover from set have "pc (snd (pc_setter s t)) = min t (len s)"
    by (simp add: pc_def bytes_io_tell_def)
  moreover from exec_inv(2) [OF assms(1), of ops]
  have "0 \<le> pc (snd (exec_body ops s)) \<and> pc (snd (exec_body ops s)) \<le> len (snd (exec_body ops s))"
    by (simp add: cs_inv_def pc_def len_def bytes_io_tell_def)
  ultimately show ?thesis by simp
qed

theorem pc_setter_clamps_witness:
  "cs_inv (init [1, 2, 3]) \<and> (0::int) \<le> 7 \<and>
   fst (pc_setter (init [1, 2, 3]) 7) = Inr () \<and>
   pc (snd (pc_setter (init [1, 2, 3]) 7)) = 3 \<and>
   0 \<le> pc (snd (exec_body
            [Read 2, SetPc 9, Catch [SetPc (- 4)], Seek 1 [Read (- 1)], Next] (init [1, 2, 3]))) \<and>
   pc (snd (exec_body
            [Read 2, SetPc 9, Catch [SetPc (- 4)], Seek 1 [Read (- 1)], Next] (init [1, 2, 3])))
     \<le> len (snd (exec_body
            [Read 2, SetPc 9, Catch [SetPc (- 4)], Seek 1 [Read (- 1)], Next] (init [1, 2, 3])))"
proof -
  have l: "len (init [1, 2, 3]) = 3" by (simp add: len_def init_def)
  have t: "(0::int) \<le> 7" by simp
  note w = pc_setter_clamps [OF init_inv t, of "[1, 2, 3]"
      "[Read 2, SetPc 9, Catch [SetPc (- 4)], Seek 1 [Read (- 1)], Next]"]
  from w [THEN conjunct1] have a: "fst (pc_setter (init [1, 2, 3]) 7) = Inr ()"
    by simp
  from w [THEN conjunct2, THEN conjunct1] l
  have b: "pc (snd (pc_setter (init [1, 2, 3]) 7)) = 3"
    by simp
  note c = w [THEN conjunct2, THEN conjunct2]
  from init_inv [of "[1, 2, 3]"] t a b c show ?thesis
    by (intro conjI) (erule conjunct1 conjunct2 | assumption)+
qed

end
